theory Spec2Isabelle
  imports Main "HOL-Library.Word"
begin

unbundle bit_operations_syntax

section \<open>Data model of \<^verbatim>\<open>kmsg_last.c\<close>\<close>

text \<open>
  The C types, on an LP64 kernel: \<^verbatim>\<open>char\<close> is a byte, \<^verbatim>\<open>int\<close> has 32 bits,
  pointers, \<^verbatim>\<open>size_t\<close>, \<^verbatim>\<open>ssize_t\<close> and \<^verbatim>\<open>loff_t\<close> have 64 bits. Signed values are
  words read through \<open>sint\<close>.

  A pointer into \<^verbatim>\<open>rbuf->data\<close> is kept as its offset from \<^verbatim>\<open>rbuf->data\<close>, the value
  \<^verbatim>\<open>(uintptr_t)(p - rbuf->data)\<close> of the source: \<^verbatim>\<open>start\<close> is offset \<open>0\<close>, \<^verbatim>\<open>stop\<close> is offset
  \<open>BUF_SIZE\<close>, and the stored \<^verbatim>\<open>head\<close> and \<^verbatim>\<open>tail\<close> may hold any 64-bit value, as the
  memory that survives a restart may.
\<close>

type_synonym byte = "8 word"
type_synonym ptr = "64 word"
type_synonym cint = "32 word"
type_synonym size_t = "64 word"
type_synonym ssize_t = "64 word"
type_synonym loff_t = "64 word"

definition BUF_SIZE :: nat where
  "BUF_SIZE = 8192"

definition BUF_MAGIC :: cint where
  "BUF_MAGIC = 0x4B4D5347"

definition EFAULT :: ssize_t where
  "EFAULT = 14"

text \<open>
  The ring buffer \<^verbatim>\<open>*rbuf\<close> and the linear buffer \<^verbatim>\<open>*lbuf\<close>. The field \<^verbatim>\<open>data\<close> of the linear
  buffer is \<open>ldata\<close> here, to keep it apart from the one of the ring buffer.
\<close>

record rbuf =
  data :: "byte list"
  head :: ptr
  tail :: ptr
  magic :: cint

record lbuf =
  ldata :: "byte list"
  count :: cint

text \<open>
  Both arrays have \<open>BUF_SIZE\<close> elements. An access through a pointer whose offset is not
  below \<open>BUF_SIZE\<close> leaves the array: the model stops there with \<open>OutOfBounds\<close>.
\<close>

datatype fault = OutOfBounds

definition rbuf_wf :: "rbuf \<Rightarrow> bool" where
  "rbuf_wf r = (length (data r) = BUF_SIZE)"

definition lbuf_wf :: "lbuf \<Rightarrow> bool" where
  "lbuf_wf l = (length (ldata l) = BUF_SIZE)"

section \<open>The capture path: \<^verbatim>\<open>ring_buffer_write\<close>\<close>

text \<open>
  The eviction loop (lines 71 to 78). \<^verbatim>\<open>found\<close> is 0 on entry, so the body runs at least
  once; one call of \<open>evict\<close> is one run of the body followed by the loop test. The loop has
  no bound of its own, so not returning is the value \<open>None\<close>.
\<close>

partial_function (option) evict :: "byte list \<Rightarrow> ptr \<Rightarrow> ptr \<Rightarrow> (fault + ptr) option" where
  "evict d h t =
     (if BUF_SIZE \<le> unat t then Some (Inl OutOfBounds)
      else
        let found = (d ! unat t = 0x0A);
            t = t + 1;
            t = (if t = of_nat BUF_SIZE then 0 else t)
        in if t = h then Some (Inr t)
           else if found then Some (Inr t)
           else evict d h t)"

text \<open>The loop over the bytes of the message (lines 66 to 80): \<^verbatim>\<open>len\<close> is the length of \<open>str\<close>.\<close>

fun write_loop ::
  "byte list \<Rightarrow> ptr \<Rightarrow> ptr \<Rightarrow> byte list \<Rightarrow> (fault + byte list \<times> ptr \<times> ptr) option" where
  "write_loop d h t [] = Some (Inr (d, h, t))"
| "write_loop d h t (c # str) =
     (if BUF_SIZE \<le> unat h then Some (Inl OutOfBounds)
      else
        let d = d[unat h := c];
            h = h + 1;
            h = (if h = of_nat BUF_SIZE then 0 else h)
        in if h = t
           then (case evict d h t of
                   None \<Rightarrow> None
                 | Some (Inl e) \<Rightarrow> Some (Inl e)
                 | Some (Inr t') \<Rightarrow> write_loop d h t' str)
           else write_loop d h t str)"

definition ring_buffer_write :: "rbuf \<Rightarrow> byte list \<Rightarrow> (fault + rbuf) option" where
  "ring_buffer_write r str =
     (case write_loop (data r) (head r) (tail r) str of
        None \<Rightarrow> None
      | Some (Inl e) \<Rightarrow> Some (Inl e)
      | Some (Inr (d, h, t)) \<Rightarrow> Some (Inr (r\<lparr>data := d, head := h, tail := t\<rparr>)))"

text \<open>A sequence of calls, each on the state the previous one left.\<close>

fun ring_buffer_writes :: "rbuf \<Rightarrow> byte list list \<Rightarrow> (fault + rbuf) option" where
  "ring_buffer_writes r [] = Some (Inr r)"
| "ring_buffer_writes r (str # strs) =
     (case ring_buffer_write r str of
        None \<Rightarrow> None
      | Some (Inl e) \<Rightarrow> Some (Inl e)
      | Some (Inr r') \<Rightarrow> ring_buffer_writes r' strs)"

definition ring_buffer_init :: "rbuf \<Rightarrow> rbuf" where
  "ring_buffer_init r = r\<lparr>head := 0, tail := 0, magic := BUF_MAGIC\<rparr>"

text \<open>
  The retained window: the bytes from \<^verbatim>\<open>tail\<close> up to \<^verbatim>\<open>head\<close>, read circularly. It is empty
  when the two cursors are equal.
\<close>

definition window :: "rbuf \<Rightarrow> byte list" where
  "window r =
     (if unat (tail r) \<le> unat (head r)
      then take (unat (head r) - unat (tail r)) (drop (unat (tail r)) (data r))
      else drop (unat (tail r)) (data r) @ take (unat (head r)) (data r))"

section \<open>The snapshot builder: \<^verbatim>\<open>ring_buffer_copy\<close>\<close>

text \<open>
  The sanitizer (lines 124 to 127). After the first statement the byte is below \<open>0x80\<close>, so
  the comparison of the second reads the same whether \<^verbatim>\<open>char\<close> is signed or not.
\<close>

definition sanitize :: "byte \<Rightarrow> byte" where
  "sanitize c =
     (let c = (if c AND 0x80 \<noteq> 0 then c AND 0x7F else c);
          c = (if c < 0x20 \<and> c \<noteq> 0x0A then c OR 0x20 else c)
      in c)"

text \<open>
  The copy loop (lines 120 to 129). \<open>dst\<close> is the offset of the pointer \<^verbatim>\<open>dst\<close> from
  \<^verbatim>\<open>lbuf->data\<close>; it starts at 0 and the loop stops with \<open>OutOfBounds\<close> before it can pass
  \<open>BUF_SIZE\<close>.
\<close>

function copy_loop :: "byte list \<Rightarrow> ptr \<Rightarrow> ptr \<Rightarrow> byte list \<Rightarrow> nat \<Rightarrow> fault + byte list" where
  "copy_loop d h t ld dst =
     (if h \<noteq> t then
        (if BUF_SIZE \<le> unat t \<or> BUF_SIZE \<le> dst then Inl OutOfBounds
         else
           let c = d ! unat t;
               t = t + 1;
               t = (if t = of_nat BUF_SIZE then 0 else t);
               c = sanitize c
           in copy_loop d h t (ld[dst := c]) (dst + 1))
      else Inr ld)"
  by pat_completeness auto
termination
  by (relation "measure (\<lambda>(d, h, t, ld, dst). BUF_SIZE - dst)") auto

declare copy_loop.simps [simp del]

text \<open>
  \<^verbatim>\<open>ring_buffer_copy\<close> (lines 102 to 129). The validity check reads the offsets as unsigned
  values. Past it both offsets are below \<open>BUF_SIZE\<close>, so \<^verbatim>\<open>tail > head\<close> on the pointers is the
  same comparison on the offsets; the difference of pointers that is stored in the \<^verbatim>\<open>int\<close>
  \<^verbatim>\<open>lbuf->count\<close> is computed on 64 bits and cut to 32.
\<close>

definition ring_buffer_copy :: "rbuf \<Rightarrow> lbuf \<Rightarrow> fault + lbuf" where
  "ring_buffer_copy r l =
     (if magic r \<noteq> BUF_MAGIC \<or> BUF_SIZE \<le> unat (head r) \<or> BUF_SIZE \<le> unat (tail r)
      then Inr (l\<lparr>count := 0\<rparr>)
      else
        let l = l\<lparr>count := ucast ((if head r < tail r then of_nat BUF_SIZE else 0)
                                    + head r - tail r)\<rparr>
        in case copy_loop (data r) (head r) (tail r) (ldata l) 0 of
             Inl e \<Rightarrow> Inl e
           | Inr ld \<Rightarrow> Inr (l\<lparr>ldata := ld\<rparr>))"

section \<open>The snapshot endpoint: \<^verbatim>\<open>linear_buffer_read\<close> and \<^verbatim>\<open>linear_buffer_write\<close>\<close>

text \<open>
  \<^verbatim>\<open>copy_to_user\<close> belongs to the kernel. It is given the number \<open>ucap\<close> of bytes that can be
  stored at the caller's \<^verbatim>\<open>buf\<close>; it stores as many bytes as it can and returns them with
  the number of bytes it could not store.
\<close>

definition copy_to_user :: "nat \<Rightarrow> byte list \<Rightarrow> nat \<Rightarrow> byte list \<times> nat" where
  "copy_to_user ucap src n = (take (min ucap n) src, n - min ucap n)"

text \<open>
  What a call of \<^verbatim>\<open>linear_buffer_read\<close> leaves: the value it returns, the position it
  stored in \<^verbatim>\<open>*ppos\<close>, the bytes that reached the caller, and the linear buffer.
\<close>

record read_result =
  ret :: ssize_t
  pos :: loff_t
  out :: "byte list"
  buf :: lbuf

text \<open>
  \<^verbatim>\<open>*ppos >= lbuf->count\<close> compares two signed values. In \<^verbatim>\<open>*ppos + count >= lbuf->count\<close> the
  operand \<^verbatim>\<open>count\<close> is an \<^verbatim>\<open>unsigned long\<close>, so all three are converted to unsigned 64-bit
  values and the sum wraps. The bytes handed to \<^verbatim>\<open>copy_to_user\<close> are the \<open>cnt\<close> bytes at
  \<^verbatim>\<open>lbuf->data + *ppos\<close>; they lie in the array when \<open>0 \<le> *ppos\<close> and \<open>*ppos + cnt \<le> BUF_SIZE\<close>.
\<close>

definition linear_buffer_read :: "lbuf \<Rightarrow> nat \<Rightarrow> size_t \<Rightarrow> loff_t \<Rightarrow> fault + read_result" where
  "linear_buffer_read l ucap cnt ppos =
     (let ppos = (if sint (count l) \<le> sint ppos then scast (count l) else ppos);
          cnt = (if (scast (count l) :: 64 word) \<le> ppos + cnt then scast (count l) - ppos else cnt)
      in if cnt \<noteq> 0 \<and> \<not> (0 \<le> sint ppos \<and> sint ppos + uint cnt \<le> int BUF_SIZE)
         then Inl OutOfBounds
         else
           let (bytes, rest) = copy_to_user ucap (drop (nat (sint ppos)) (ldata l)) (unat cnt)
           in if rest \<noteq> 0
              then Inr \<lparr>ret = - EFAULT, pos = ppos, out = bytes, buf = l\<rparr>
              else Inr \<lparr>ret = cnt, pos = ppos + cnt, out = bytes, buf = l\<rparr>)"

text \<open>\<^verbatim>\<open>linear_buffer_write\<close> returns the new linear buffer and the value it returns.\<close>

definition linear_buffer_write :: "lbuf \<Rightarrow> byte list \<Rightarrow> size_t \<Rightarrow> loff_t \<Rightarrow> lbuf \<times> ssize_t" where
  "linear_buffer_write l ubuf cnt ppos = (l\<lparr>count := 0\<rparr>, cnt)"

section \<open>Notions used in the statements and proofs\<close>

text \<open>
  \<open>scan_len h t\<close> is the number of steps a cursor at offset \<open>t\<close> takes, advancing
  circularly, until it stands at \<open>h\<close>; a full turn when it starts there.
\<close>

definition scan_len :: "ptr \<Rightarrow> ptr \<Rightarrow> nat" where
  "scan_len h t = (if unat t < unat h then unat h - unat t else unat h + BUF_SIZE - unat t)"

text \<open>\<open>span d h t\<close> is the window of a ring buffer with storage \<open>d\<close>, head \<open>h\<close> and tail \<open>t\<close>.\<close>

definition span :: "byte list \<Rightarrow> ptr \<Rightarrow> ptr \<Rightarrow> byte list" where
  "span d h t =
     (if unat t \<le> unat h then take (unat h - unat t) (drop (unat t) d)
      else drop (unat t) d @ take (unat h) d)"

text \<open>
  The first \<^verbatim>\<open>count\<close> bytes of the linear buffer are newlines or lie between \<open>0x20\<close> and
  \<open>0x7F\<close>.
\<close>

definition snapshot_clean :: "lbuf \<Rightarrow> bool" where
  "snapshot_clean l =
     list_all (\<lambda>b. b = 0x0A \<or> (0x20 \<le> b \<and> b \<le> 0x7F)) (take (nat (sint (count l))) (ldata l))"

section \<open>The sanitizer\<close>

lemma byte_exhaust:
  assumes "list_all (\<lambda>n. P (of_nat n :: byte)) [0..<256]"
  shows "P b"
proof -
  have "unat b < 256"
    using unsigned_less [of b] by simp
  then have "unat b \<in> set [0..<256]"
    by simp
  with assms have "P (of_nat (unat b))"
    unfolding list_all_iff by blast
  then show ?thesis
    by simp
qed

text \<open>
  C5. The sanitizer is the two rules of the specification, applied in order: a byte of at
  least \<open>0x80\<close> loses \<open>0x80\<close>; then a byte below \<open>0x20\<close> other than the newline \<open>0x0A\<close> gets bit
  \<open>0x20\<close> set, and every other byte stays. So \<open>0x01\<close> becomes \<open>0x21\<close>, \<open>0x0A\<close> stays and
  \<open>0xFF\<close> becomes \<open>0x7F\<close>.
\<close>

theorem sanitize_rules:
  "sanitize b =
     (let c = (if 0x80 \<le> b then b - 0x80 else b)
      in if c < 0x20 \<and> c \<noteq> 0x0A then c OR 0x20 else c)
   \<and> sanitize 0x01 = 0x21 \<and> sanitize 0x0A = 0x0A \<and> sanitize 0xFF = 0x7F"
proof -
  have "sanitize b =
     (let c = (if 0x80 \<le> b then b - 0x80 else b)
      in if c < 0x20 \<and> c \<noteq> 0x0A then c OR 0x20 else c)"
    by (rule byte_exhaust [of "\<lambda>b. sanitize b =
     (let c = (if 0x80 \<le> b then b - 0x80 else b)
      in if c < 0x20 \<and> c \<noteq> 0x0A then c OR 0x20 else c)"]) code_simp
  moreover have "sanitize 0x01 = 0x21" "sanitize 0x0A = 0x0A" "sanitize 0xFF = 0x7F"
    by (simp_all add: sanitize_def)
  ultimately show ?thesis
    by simp
qed

section \<open>Cursor arithmetic\<close>

lemma BUF_SIZE_pos: "0 < BUF_SIZE" by (simp add: BUF_SIZE_def)

lemma unat_stop: "unat (of_nat BUF_SIZE :: ptr) = BUF_SIZE"
  by (simp add: BUF_SIZE_def)

lemma unat_succ: "unat p < BUF_SIZE \<Longrightarrow> unat (p + 1) = Suc (unat p)" for p :: ptr
  by (simp add: BUF_SIZE_def unat_add_lem [THEN iffD1])

lemma stop_iff: "unat p < BUF_SIZE \<Longrightarrow> (p + 1 = of_nat BUF_SIZE) = (Suc (unat p) = BUF_SIZE)" for p :: ptr
  by (metis unat_stop unat_succ word_unat_eq_iff)

lemma unat_wrap:
  "unat p < BUF_SIZE \<Longrightarrow>
   unat (if p + 1 = of_nat BUF_SIZE then 0 else p + 1) =
     (if Suc (unat p) = BUF_SIZE then 0 else Suc (unat p))" for p :: ptr
  by (simp add: stop_iff unat_succ)

lemma wrap_in_range:
  "unat p < BUF_SIZE \<Longrightarrow> unat (if p + 1 = of_nat BUF_SIZE then 0 else p + 1) < BUF_SIZE" for p :: ptr
  by (simp add: unat_wrap BUF_SIZE_pos)

lemma scan_len_step:
  assumes "unat h < BUF_SIZE" "unat t < BUF_SIZE"
    and "(if t + 1 = of_nat BUF_SIZE then 0 else t + 1) \<noteq> h"
  shows "scan_len h (if t + 1 = of_nat BUF_SIZE then 0 else t + 1) < scan_len h t"
proof -
  let ?t1 = "if t + 1 = of_nat BUF_SIZE then 0 else t + 1"
  have "unat ?t1 \<noteq> unat h"
    using assms(3) word_unat_eq_iff by blast
  moreover have "unat ?t1 = (if Suc (unat t) = BUF_SIZE then 0 else Suc (unat t))"
    using assms(2) by (rule unat_wrap)
  ultimately show ?thesis
    using assms(1,2) unfolding scan_len_def by (auto split: if_splits)
qed

lemma evict_returns:
  assumes "unat h < BUF_SIZE"
  shows "unat t < BUF_SIZE \<Longrightarrow> \<exists>t'. evict d h t = Some (Inr t') \<and> unat t' < BUF_SIZE"
proof (induction "scan_len h t" arbitrary: t rule: less_induct)
  case less
  let ?t1 = "if t + 1 = of_nat BUF_SIZE then 0 else t + 1"
  have r1: "unat ?t1 < BUF_SIZE"
    using less.prems by (rule wrap_in_range)
  show ?case
  proof (cases "?t1 = h \<or> d ! unat t = 0x0A")
    case True
    then show ?thesis
      using less.prems r1 by (subst evict.simps) (auto simp: Let_def)
  next
    case False
    then have "scan_len h ?t1 < scan_len h t"
      using scan_len_step [OF assms less.prems] by simp
    from less.hyps [OF this r1] obtain t' where "evict d h ?t1 = Some (Inr t')" "unat t' < BUF_SIZE"
      by blast
    then show ?thesis
      using False less.prems by (subst evict.simps) (simp add: Let_def)
  qed
qed

lemma evict_no_newline:
  assumes "unat h < BUF_SIZE" and "\<forall>i<BUF_SIZE. d ! i \<noteq> 0x0A"
  shows "unat t < BUF_SIZE \<Longrightarrow> evict d h t = Some (Inr h)"
proof (induction "scan_len h t" arbitrary: t rule: less_induct)
  case less
  let ?t1 = "if t + 1 = of_nat BUF_SIZE then 0 else t + 1"
  have r1: "unat ?t1 < BUF_SIZE"
    using less.prems by (rule wrap_in_range)
  have nl: "d ! unat t \<noteq> 0x0A"
    using assms(2) less.prems by simp
  show ?case
  proof (cases "?t1 = h")
    case True
    then show ?thesis
      using less.prems by (subst evict.simps) (auto simp: Let_def)
  next
    case False
    then have "scan_len h ?t1 < scan_len h t"
      using scan_len_step [OF assms(1) less.prems] by simp
    from less.hyps [OF this r1] have "evict d h ?t1 = Some (Inr h)" .
    then show ?thesis
      using False nl less.prems by (subst evict.simps) (simp add: Let_def)
  qed
qed

lemma write_loop_returns:
  "unat h < BUF_SIZE \<Longrightarrow> unat t < BUF_SIZE \<Longrightarrow>
   \<exists>d' h' t'. write_loop d h t str = Some (Inr (d', h', t'))
     \<and> length d' = length d \<and> unat h' < BUF_SIZE \<and> unat t' < BUF_SIZE"
proof (induction str arbitrary: d h t)
  case Nil
  then show ?case by simp
next
  case (Cons c str)
  let ?d1 = "d[unat h := c]"
  let ?h1 = "if h + 1 = of_nat BUF_SIZE then 0 else h + 1"
  have h1: "unat ?h1 < BUF_SIZE"
    using Cons.prems(1) by (rule wrap_in_range)
  show ?case
  proof (cases "?h1 = t")
    case True
    obtain t' where ev: "evict ?d1 ?h1 t = Some (Inr t')" and t': "unat t' < BUF_SIZE"
      using evict_returns [OF h1 Cons.prems(2)] by blast
    from Cons.IH [OF h1 t', of ?d1] show ?thesis
      using True ev Cons.prems(1) by (simp add: Let_def)
  next
    case False
    from Cons.IH [OF h1 Cons.prems(2), of ?d1] show ?thesis
      using False Cons.prems(1) by (simp add: Let_def)
  qed
qed

lemma write_loop_append:
  "write_loop d h t xs = Some (Inr (d', h', t')) \<Longrightarrow>
   write_loop d h t (xs @ ys) = write_loop d' h' t' ys"
proof (induction xs arbitrary: d h t)
  case Nil
  then show ?case by simp
next
  case (Cons c xs)
  then show ?case
    by (auto simp: Let_def split: if_splits option.splits sum.splits)
qed


lemma write_loop_data:
  "write_loop d h t str = Some (Inr (d', h', t')) \<Longrightarrow>
   length d' = length d \<and> set d' \<subseteq> set d \<union> set str"
proof (induction str arbitrary: d h t)
  case Nil
  then show ?case by simp
next
  case (Cons c str)
  let ?d1 = "d[unat h := c]"
  have s1: "set ?d1 \<subseteq> insert c (set d)"
    by (rule set_update_subset_insert)
  from Cons.prems obtain h1 t1 where "write_loop ?d1 h1 t1 str = Some (Inr (d', h', t'))"
    by (auto simp: Let_def split: if_splits option.splits sum.splits)
  from Cons.IH [OF this] show ?case
    using s1 by auto
qed

text \<open>Writing into the free part of a buffer whose tail is at the start.\<close>

lemma write_loop_linear:
  "length d = BUF_SIZE \<Longrightarrow> unat h + length str < BUF_SIZE \<Longrightarrow>
   write_loop d h 0 str =
     Some (Inr (take (unat h) d @ str @ drop (unat h + length str) d,
                of_nat (unat h + length str), 0))"
proof (induction str arbitrary: d h)
  case Nil
  then show ?case by simp
next
  case (Cons c str)
  let ?d1 = "d[unat h := c]"
  have hr: "unat h < BUF_SIZE" and h1r: "Suc (unat h) < BUF_SIZE"
    using Cons.prems(2) by simp_all
  have u1: "unat (h + 1) = Suc (unat h)"
    using hr by (rule unat_succ)
  have ns: "h + 1 \<noteq> of_nat BUF_SIZE"
    using h1r by (simp add: stop_iff [OF hr])
  have nz: "h + 1 \<noteq> 0"
    using u1 by (metis Zero_not_Suc unat_0)
  have "write_loop ?d1 (h + 1) 0 str =
     Some (Inr (take (unat (h + 1)) ?d1 @ str @ drop (unat (h + 1) + length str) ?d1,
                of_nat (unat (h + 1) + length str), 0))"
    using Cons.prems by (intro Cons.IH) (simp_all add: u1)
  moreover have "take (Suc (unat h)) ?d1 = take (unat h) d @ [c]"
    using hr Cons.prems(1) by (simp add: take_Suc_conv_app_nth)
  moreover have "drop (Suc (unat h) + length str) ?d1 = drop (Suc (unat h) + length str) d"
    by simp
  ultimately show ?case
    using hr ns nz by (simp add: Let_def u1)
qed

lemma scan_len_Suc:
  assumes "unat h < BUF_SIZE" "unat t < BUF_SIZE"
    and "(if t + 1 = of_nat BUF_SIZE then 0 else t + 1) \<noteq> h"
  shows "Suc (scan_len h (if t + 1 = of_nat BUF_SIZE then 0 else t + 1)) = scan_len h t"
proof -
  let ?t1 = "if t + 1 = of_nat BUF_SIZE then 0 else t + 1"
  have "unat ?t1 \<noteq> unat h"
    using assms(3) word_unat_eq_iff by blast
  moreover have "unat ?t1 = (if Suc (unat t) = BUF_SIZE then 0 else Suc (unat t))"
    using assms(2) by (rule unat_wrap)
  ultimately show ?thesis
    using assms(1,2) unfolding scan_len_def by (auto split: if_splits)
qed

lemma scan_len_one:
  assumes "unat h < BUF_SIZE" "unat t < BUF_SIZE"
    and "(if t + 1 = of_nat BUF_SIZE then 0 else t + 1) = h"
  shows "scan_len h t = 1"
proof -
  let ?t1 = "if t + 1 = of_nat BUF_SIZE then 0 else t + 1"
  have "unat ?t1 = unat h"
    using assms(3) by simp
  moreover have "unat ?t1 = (if Suc (unat t) = BUF_SIZE then 0 else Suc (unat t))"
    using assms(2) by (rule unat_wrap)
  ultimately show ?thesis
    using assms(1,2) unfolding scan_len_def by (auto split: if_splits)
qed

lemma unat_wrap_mod:
  "unat p < BUF_SIZE \<Longrightarrow>
   unat (if p + 1 = of_nat BUF_SIZE then 0 else p + 1) = Suc (unat p) mod BUF_SIZE" for p :: ptr
  by (simp add: unat_wrap)

text \<open>While the head does not reach the tail, nothing is evicted.\<close>

lemma write_loop_no_evict:
  "unat h < BUF_SIZE \<Longrightarrow> unat t < BUF_SIZE \<Longrightarrow> length str < scan_len t h \<Longrightarrow>
   \<exists>d' h'. write_loop d h t str = Some (Inr (d', h', t))
     \<and> unat h' = (unat h + length str) mod BUF_SIZE"
proof (induction str arbitrary: d h)
  case Nil
  then show ?case by simp
next
  case (Cons c str)
  let ?d1 = "d[unat h := c]"
  let ?h1 = "if h + 1 = of_nat BUF_SIZE then 0 else h + 1"
  have h1: "unat ?h1 < BUF_SIZE"
    using Cons.prems(1) by (rule wrap_in_range)
  have ne: "?h1 \<noteq> t"
    using scan_len_one [OF Cons.prems(2) Cons.prems(1)] Cons.prems(3) by auto
  have "Suc (scan_len t ?h1) = scan_len t h"
    using Cons.prems(2) Cons.prems(1) ne by (rule scan_len_Suc)
  then have "length str < scan_len t ?h1"
    using Cons.prems(3) by simp
  from Cons.IH [OF h1 Cons.prems(2) this, of ?d1]
  obtain d' h' where w: "write_loop ?d1 ?h1 t str = Some (Inr (d', h', t))"
    and u: "unat h' = (unat ?h1 + length str) mod BUF_SIZE"
    by blast
  have "unat h' = (unat h + length (c # str)) mod BUF_SIZE"
    using u by (simp add: unat_wrap_mod [OF Cons.prems(1)] mod_Suc_eq mod_add_left_eq)
  then show ?case
    using w ne Cons.prems(1) by (simp add: Let_def)
qed

text \<open>A byte that makes the head reach the tail, in a buffer that holds no newline.\<close>

lemma write_loop_catch_up:
  assumes "length d = BUF_SIZE" "unat h < BUF_SIZE"
    and "(if h + 1 = of_nat BUF_SIZE then 0 else h + 1) = t"
    and "0x0A \<notin> set d" "c \<noteq> 0x0A"
  shows "write_loop d h t [c] = Some (Inr (d[unat h := c], t, t))"
proof -
  let ?d1 = "d[unat h := c]"
  have t: "unat t < BUF_SIZE"
    using wrap_in_range [OF assms(2)] assms(3) by simp
  have "set ?d1 \<subseteq> insert c (set d)"
    by (rule set_update_subset_insert)
  then have "0x0A \<notin> set ?d1"
    using assms(4,5) by auto
  then have "\<forall>i<BUF_SIZE. ?d1 ! i \<noteq> 0x0A"
    using assms(1) by (metis length_list_update nth_mem)
  then have "evict ?d1 t t = Some (Inr t)"
    using t by (intro evict_no_newline) simp_all
  then show ?thesis
    using assms(2,3) by (simp add: Let_def)
qed

lemma write_loop_fill:
  assumes "length d = BUF_SIZE" "length str = BUF_SIZE" "0x0A \<notin> set str"
  shows "write_loop d 0 0 str = Some (Inr (str, 0, 0))"
proof -
  obtain xs c where str: "str = xs @ [c]"
    using assms(2) BUF_SIZE_pos by (cases str rule: rev_cases) auto
  have lx: "Suc (length xs) = BUF_SIZE"
    using assms(2) str by simp
  let ?d1 = "xs @ drop (length xs) d"
  let ?h1 = "of_nat (length xs) :: ptr"
  have "write_loop d 0 0 xs = Some (Inr (take (unat (0 :: ptr)) d @ xs @ drop (unat (0 :: ptr) + length xs) d,
      of_nat (unat (0 :: ptr) + length xs), 0))"
    using assms(1) lx by (intro write_loop_linear) simp_all
  then have w1: "write_loop d 0 0 xs = Some (Inr (?d1, ?h1, 0))"
    by simp
  have uh: "unat ?h1 = length xs"
    using lx by (simp add: BUF_SIZE_def unat_of_nat)
  have d1: "length ?d1 = BUF_SIZE"
    using assms(1) lx by simp
  have "drop (length xs) d = [d ! length xs]"
    using assms(1) lx by (simp flip: Cons_nth_drop_Suc)
  then have d2: "?d1[length xs := c] = str"
    using str by (simp add: list_update_append)
  have nl2: "\<forall>i<BUF_SIZE. str ! i \<noteq> 0x0A"
    using assms(2,3) by (metis nth_mem)
  have st: "?h1 + 1 = of_nat BUF_SIZE"
    using lx by (metis of_nat_Suc add.commute plus_1_eq_Suc)
  have "evict str 0 0 = Some (Inr 0)"
    using nl2 by (intro evict_no_newline) (simp_all add: BUF_SIZE_pos)
  then have "write_loop ?d1 ?h1 0 [c] = Some (Inr (str, 0, 0))"
    using uh lx st d2 by (simp add: Let_def)
  then show ?thesis
    using write_loop_append [OF w1, of "[c]"] str by simp
qed

section \<open>The cursors stay in the storage\<close>

lemma ring_buffer_write_returns:
  assumes "unat (head r) < BUF_SIZE" "unat (tail r) < BUF_SIZE"
  shows "\<exists>r'. ring_buffer_write r str = Some (Inr r')
    \<and> unat (head r') < BUF_SIZE \<and> unat (tail r') < BUF_SIZE
    \<and> length (data r') = length (data r) \<and> magic r' = magic r"
proof -
  obtain d' h' t' where "write_loop (data r) (head r) (tail r) str = Some (Inr (d', h', t'))"
    "length d' = length (data r)" "unat h' < BUF_SIZE" "unat t' < BUF_SIZE"
    using write_loop_returns [OF assms] by blast
  then show ?thesis
    by (simp add: ring_buffer_write_def)
qed

lemma ring_buffer_writes_returns:
  "unat (head r) < BUF_SIZE \<Longrightarrow> unat (tail r) < BUF_SIZE \<Longrightarrow>
   \<exists>r'. ring_buffer_writes r strs = Some (Inr r')
     \<and> unat (head r') < BUF_SIZE \<and> unat (tail r') < BUF_SIZE"
proof (induction strs arbitrary: r)
  case Nil
  then show ?case by simp
next
  case (Cons str strs)
  obtain r1 where "ring_buffer_write r str = Some (Inr r1)"
    "unat (head r1) < BUF_SIZE" "unat (tail r1) < BUF_SIZE"
    using ring_buffer_write_returns [OF Cons.prems] by blast
  then show ?case
    using Cons.IH [of r1] by simp
qed

text \<open>
  C8. \<^verbatim>\<open>ring_buffer_init\<close> puts both cursors at offsets below \<open>BUF_SIZE\<close>; from any state
  whose cursors are below \<open>BUF_SIZE\<close>, \<^verbatim>\<open>ring_buffer_write\<close> returns, for every message, with
  both cursors below \<open>BUF_SIZE\<close> again; so does every sequence of calls after
  \<^verbatim>\<open>ring_buffer_init\<close>.
\<close>

theorem cursors_within_storage:
  "unat (head (ring_buffer_init r0)) < BUF_SIZE \<and> unat (tail (ring_buffer_init r0)) < BUF_SIZE
   \<and> (unat (head r) < BUF_SIZE \<and> unat (tail r) < BUF_SIZE \<longrightarrow>
        (\<exists>r'. ring_buffer_write r str = Some (Inr r')
           \<and> unat (head r') < BUF_SIZE \<and> unat (tail r') < BUF_SIZE))
   \<and> (\<exists>r'. ring_buffer_writes (ring_buffer_init r0) strs = Some (Inr r')
           \<and> unat (head r') < BUF_SIZE \<and> unat (tail r') < BUF_SIZE)"
proof -
  have i: "unat (head (ring_buffer_init r0)) < BUF_SIZE" "unat (tail (ring_buffer_init r0)) < BUF_SIZE"
    by (simp_all add: ring_buffer_init_def BUF_SIZE_pos)
  moreover have "unat (head r) < BUF_SIZE \<and> unat (tail r) < BUF_SIZE \<longrightarrow>
        (\<exists>r'. ring_buffer_write r str = Some (Inr r')
           \<and> unat (head r') < BUF_SIZE \<and> unat (tail r') < BUF_SIZE)"
    using ring_buffer_write_returns [of r str] by blast
  moreover have "\<exists>r'. ring_buffer_writes (ring_buffer_init r0) strs = Some (Inr r')
           \<and> unat (head r') < BUF_SIZE \<and> unat (tail r') < BUF_SIZE"
    using i by (rule ring_buffer_writes_returns)
  ultimately show ?thesis
    by blast
qed

theorem cursors_within_storage_witness:
  "unat (head (ring_buffer_init \<lparr>data = replicate 8192 0, head = 9000, tail = 7, magic = 0\<rparr>)) < BUF_SIZE
   \<and> unat (tail (ring_buffer_init \<lparr>data = replicate 8192 0, head = 9000, tail = 7, magic = 0\<rparr>)) < BUF_SIZE
   \<and> unat (head \<lparr>data = replicate 8192 0, head = 8191, tail = 0, magic = 0\<rparr>) < BUF_SIZE
   \<and> unat (tail \<lparr>data = replicate 8192 0, head = 8191, tail = 0, magic = 0\<rparr>) < BUF_SIZE
   \<and> (\<exists>r'. ring_buffer_write \<lparr>data = replicate 8192 0, head = 8191, tail = 0, magic = 0\<rparr> [0x41, 0x42]
             = Some (Inr r')
          \<and> unat (head r') < BUF_SIZE \<and> unat (tail r') < BUF_SIZE)"
  using cursors_within_storage [of "\<lparr>data = replicate 8192 0, head = 9000, tail = 7, magic = 0\<rparr>"
      "\<lparr>data = replicate 8192 0, head = 8191, tail = 0, magic = 0\<rparr>" "[0x41, 0x42]" "[]"]
  by (simp add: BUF_SIZE_def)

section \<open>Reading back what was written\<close>

lemma unat_of_nat_ptr: "n < BUF_SIZE \<Longrightarrow> unat (of_nat n :: ptr) = n"
  by (simp add: unat_of_nat BUF_SIZE_def)

lemma ring_buffer_write_linear:
  assumes "rbuf_wf r" "tail r = 0" "unat (head r) + length str < BUF_SIZE"
  shows "ring_buffer_write r str =
    Some (Inr (r\<lparr>data := take (unat (head r)) (data r) @ str
                          @ drop (unat (head r) + length str) (data r),
                 head := of_nat (unat (head r) + length str), tail := 0\<rparr>))"
  using write_loop_linear [of "data r" "head r" str] assms
  by (simp add: ring_buffer_write_def rbuf_wf_def)

lemma ring_buffer_writes_linear:
  "rbuf_wf r \<Longrightarrow> tail r = 0 \<Longrightarrow> unat (head r) + length (concat strs) < BUF_SIZE \<Longrightarrow>
   \<exists>r'. ring_buffer_writes r strs = Some (Inr r') \<and> tail r' = 0
     \<and> unat (head r') = unat (head r) + length (concat strs)
     \<and> data r' = take (unat (head r)) (data r) @ concat strs
                  @ drop (unat (head r) + length (concat strs)) (data r)"
proof (induction strs arbitrary: r)
  case Nil
  then show ?case by simp
next
  case (Cons str strs)
  let ?n = "unat (head r) + length str"
  let ?r1 = "r\<lparr>data := take (unat (head r)) (data r) @ str @ drop ?n (data r),
               head := of_nat ?n, tail := 0\<rparr>"
  have lt: "?n < BUF_SIZE"
    using Cons.prems(3) by simp
  have w: "ring_buffer_write r str = Some (Inr ?r1)"
    using Cons.prems(1,2) lt by (rule ring_buffer_write_linear)
  have len: "length (data r) = BUF_SIZE"
    using Cons.prems(1) by (simp add: rbuf_wf_def)
  have u: "unat (of_nat ?n :: ptr) = ?n"
    using lt by (rule unat_of_nat_ptr)
  have wf1: "rbuf_wf ?r1"
    using len lt by (simp add: rbuf_wf_def)
  have "unat (head ?r1) + length (concat strs) < BUF_SIZE"
    using Cons.prems(3) u by (simp del: of_nat_add)
  from Cons.IH [OF wf1 _ this] obtain r' where r': "ring_buffer_writes ?r1 strs = Some (Inr r')"
    "tail r' = 0" "unat (head r') = unat (head ?r1) + length (concat strs)"
    "data r' = take (unat (head ?r1)) (data ?r1) @ concat strs
                  @ drop (unat (head ?r1) + length (concat strs)) (data ?r1)"
    by auto
  have "data r' = take (unat (head r)) (data r) @ concat (str # strs)
                  @ drop (unat (head r) + length (concat (str # strs))) (data r)"
    using r'(4) u len lt by (simp add: ac_simps del: of_nat_add)
  then show ?case
    using w r' u by (simp add: ac_simps del: of_nat_add)
qed

text \<open>
  C1, as amended. From a freshly initialised ring buffer, every sequence of calls of
  \<^verbatim>\<open>ring_buffer_write\<close> whose messages have fewer than \<open>BUF_SIZE\<close> bytes in total returns,
  and the retained window is then the concatenation of the messages, byte for byte.
\<close>

theorem write_read_back:
  assumes "rbuf_wf r0" "length (concat strs) < BUF_SIZE"
  shows "\<exists>r'. ring_buffer_writes (ring_buffer_init r0) strs = Some (Inr r')
    \<and> window r' = concat strs"
proof -
  let ?r = "ring_buffer_init r0"
  have "rbuf_wf ?r" "tail ?r = 0" and h0: "unat (head ?r) = 0"
    using assms(1) by (simp_all add: ring_buffer_init_def rbuf_wf_def)
  moreover have "unat (head ?r) + length (concat strs) < BUF_SIZE"
    using assms(2) h0 by simp
  ultimately obtain r' where r': "ring_buffer_writes ?r strs = Some (Inr r')" "tail r' = 0"
    "unat (head r') = unat (head ?r) + length (concat strs)"
    "data r' = take (unat (head ?r)) (data ?r) @ concat strs
                  @ drop (unat (head ?r) + length (concat strs)) (data ?r)"
    using ring_buffer_writes_linear [of ?r strs] by blast
  have "window r' = concat strs"
    using r'(2,3,4) h0 by (simp add: window_def)
  then show ?thesis
    using r'(1) by blast
qed

theorem write_read_back_witness:
  "rbuf_wf \<lparr>data = replicate 8192 0, head = 4660, tail = 65535, magic = 0\<rparr>
   \<and> length (concat [[0x68, 0x69], [0x0A]]) < BUF_SIZE
   \<and> (\<exists>r'. ring_buffer_writes
            (ring_buffer_init \<lparr>data = replicate 8192 0, head = 4660, tail = 65535, magic = 0\<rparr>)
            [[0x68, 0x69], [0x0A]] = Some (Inr r')
          \<and> window r' = concat [[0x68, 0x69], [0x0A]])"
  using write_read_back [of "\<lparr>data = replicate 8192 0, head = 4660, tail = 65535, magic = 0\<rparr>"
      "[[0x68, 0x69], [0x0A]]"]
  by (simp add: rbuf_wf_def BUF_SIZE_def)

text \<open>
  C1 as stated fails when the total is exactly \<open>BUF_SIZE\<close>: the last byte brings the head
  back to the tail, the eviction runs, and with no newline stored it empties the window.
\<close>

theorem write_read_back_counterexample:
  "rbuf_wf \<lparr>data = replicate 8192 0, head = 0, tail = 0, magic = 0\<rparr>
   \<and> length (concat [replicate 8192 (0x41 :: byte)]) \<le> BUF_SIZE
   \<and> ring_buffer_writes (ring_buffer_init \<lparr>data = replicate 8192 0, head = 0, tail = 0, magic = 0\<rparr>)
         [replicate 8192 0x41]
       = Some (Inr \<lparr>data = replicate 8192 0x41, head = 0, tail = 0, magic = BUF_MAGIC\<rparr>)
   \<and> window \<lparr>data = replicate 8192 0x41, head = 0, tail = 0, magic = BUF_MAGIC\<rparr>
       \<noteq> concat [replicate 8192 0x41]"
proof -
  have "write_loop (replicate BUF_SIZE 0) 0 0 (replicate BUF_SIZE 0x41)
      = Some (Inr (replicate BUF_SIZE 0x41, 0, 0))"
    by (rule write_loop_fill) (simp_all add: BUF_SIZE_pos)
  then show ?thesis
    by (simp add: ring_buffer_write_def ring_buffer_init_def rbuf_wf_def window_def BUF_SIZE_def)
qed

section \<open>Eviction in a buffer without a newline\<close>

lemma scan_len_bounds:
  "unat h < BUF_SIZE \<Longrightarrow> unat t < BUF_SIZE \<Longrightarrow> 0 < scan_len h t \<and> scan_len h t \<le> BUF_SIZE"
  by (auto simp: scan_len_def)

lemma scan_len_mod:
  "unat h < BUF_SIZE \<Longrightarrow> unat t < BUF_SIZE \<Longrightarrow> (unat t + scan_len h t) mod BUF_SIZE = unat h"
  by (auto simp: scan_len_def)

lemma write_loop_until_caught:
  assumes "length d = BUF_SIZE" "unat h < BUF_SIZE" "unat t < BUF_SIZE"
    and "0x0A \<notin> set d" "0x0A \<notin> set str" "length str = scan_len t h"
  shows "\<exists>d'. write_loop d h t str = Some (Inr (d', t, t))"
proof -
  obtain xs c where str: "str = xs @ [c]"
    using assms(6) scan_len_bounds [OF assms(3,2)] by (cases str rule: rev_cases) auto
  have lx: "Suc (length xs) = scan_len t h"
    using assms(6) str by simp
  then have "length xs < scan_len t h"
    by simp
  from write_loop_no_evict [OF assms(2,3) this, of d]
  obtain d1 h1 where w1: "write_loop d h t xs = Some (Inr (d1, h1, t))"
    and u1: "unat h1 = (unat h + length xs) mod BUF_SIZE"
    by blast
  have d1: "length d1 = BUF_SIZE" "0x0A \<notin> set d1"
    using write_loop_data [OF w1] assms(1,4,5) str by auto
  have h1: "unat h1 < BUF_SIZE"
    using u1 BUF_SIZE_pos by simp
  let ?h2 = "if h1 + 1 = of_nat BUF_SIZE then 0 else h1 + 1"
  have "unat ?h2 = Suc (unat h1) mod BUF_SIZE"
    using h1 by (rule unat_wrap_mod)
  also have "\<dots> = (unat h + scan_len t h) mod BUF_SIZE"
    using u1 lx [symmetric] by (simp add: mod_Suc_eq)
  also have "\<dots> = unat t"
    using assms(3,2) by (rule scan_len_mod)
  finally have "?h2 = t"
    by (simp only: word_unat_eq_iff)
  from write_loop_catch_up [OF d1(1) h1 this d1(2)]
  have "write_loop d1 h1 t [c] = Some (Inr (d1[unat h1 := c], t, t))"
    using assms(5) str by simp
  then show ?thesis
    using write_loop_append [OF w1, of "[c]"] str by simp
qed

text \<open>
  C2, as amended. In a ring buffer that stores no newline, with both cursors in the storage,
  newline-free bytes are written as follows. When the cursors are equal, as they are after
  a single line of exactly \<open>BUF_SIZE\<close> bytes, fewer than \<open>BUF_SIZE\<close> further bytes move the
  head and leave the tail where it is: nothing is evicted. The byte that brings the head back
  to the tail, which is the \<open>BUF_SIZE\<close>-th byte after that state and the next byte when the
  head stands just behind the tail, makes the eviction scan the whole storage and stop at the
  head: tail and head are equal again and the retained window is empty.
\<close>

theorem newline_free_eviction:
  assumes "rbuf_wf r" "0x0A \<notin> set (data r)" "0x0A \<notin> set str"
    and "unat (head r) < BUF_SIZE" "unat (tail r) < BUF_SIZE"
  shows "(head r = tail r \<and> length str < BUF_SIZE \<longrightarrow>
            (\<exists>r'. ring_buffer_write r str = Some (Inr r') \<and> tail r' = tail r
               \<and> unat (head r') = (unat (head r) + length str) mod BUF_SIZE))
       \<and> (head r = tail r \<and> length str = BUF_SIZE \<longrightarrow>
            (\<exists>r'. ring_buffer_write r str = Some (Inr r') \<and> tail r' = tail r
               \<and> head r' = tail r \<and> window r' = []))
       \<and> (Suc (unat (head r)) mod BUF_SIZE = unat (tail r) \<and> length str = 1 \<longrightarrow>
            (\<exists>r'. ring_buffer_write r str = Some (Inr r') \<and> tail r' = tail r
               \<and> head r' = tail r \<and> window r' = []))"
proof (intro conjI impI)
  let ?h = "head r" and ?t = "tail r"
  have len: "length (data r) = BUF_SIZE"
    using assms(1) by (simp add: rbuf_wf_def)
  {
    assume a: "?h = ?t \<and> length str < BUF_SIZE"
    then have "length str < scan_len ?t ?h"
      by (simp add: scan_len_def)
    from write_loop_no_evict [OF assms(4,5) this, of "data r"]
    show "\<exists>r'. ring_buffer_write r str = Some (Inr r') \<and> tail r' = tail r
               \<and> unat (head r') = (unat (head r) + length str) mod BUF_SIZE"
      by (auto simp: ring_buffer_write_def)
  }
  have caught: "\<exists>r'. ring_buffer_write r str = Some (Inr r') \<and> tail r' = tail r
               \<and> head r' = tail r \<and> window r' = []" if "length str = scan_len ?t ?h"
    using write_loop_until_caught [OF len assms(4,5,2,3) that]
    by (auto simp: ring_buffer_write_def window_def)
  {
    assume "?h = ?t \<and> length str = BUF_SIZE"
    then have "length str = scan_len ?t ?h"
      by (simp add: scan_len_def)
    then show "\<exists>r'. ring_buffer_write r str = Some (Inr r') \<and> tail r' = tail r
               \<and> head r' = tail r \<and> window r' = []"
      by (rule caught)
  }
  {
    assume "Suc (unat ?h) mod BUF_SIZE = unat ?t \<and> length str = 1"
    then have "length str = scan_len ?t ?h"
      using assms(4,5) by (auto simp: scan_len_def mod_Suc split: if_splits)
    then show "\<exists>r'. ring_buffer_write r str = Some (Inr r') \<and> tail r' = tail r
               \<and> head r' = tail r \<and> window r' = []"
      by (rule caught)
  }
qed

theorem newline_free_eviction_witness:
  "rbuf_wf \<lparr>data = replicate 8192 0x41, head = 0, tail = 0, magic = BUF_MAGIC\<rparr>
   \<and> 0x0A \<notin> set (replicate 8192 (0x41 :: byte)) \<and> 0x0A \<notin> set [0x42 :: byte]
   \<and> length [0x42 :: byte] < BUF_SIZE
   \<and> (\<exists>r'. ring_buffer_write \<lparr>data = replicate 8192 0x41, head = 0, tail = 0, magic = BUF_MAGIC\<rparr>
             [0x42] = Some (Inr r')
          \<and> tail r' = 0 \<and> unat (head r') = 1)
   \<and> length (replicate 8192 (0x42 :: byte)) = BUF_SIZE
   \<and> (\<exists>r'. ring_buffer_write \<lparr>data = replicate 8192 0x41, head = 0, tail = 0, magic = BUF_MAGIC\<rparr>
             (replicate 8192 0x42) = Some (Inr r')
          \<and> tail r' = 0 \<and> head r' = 0 \<and> window r' = [])
   \<and> Suc (unat (8191 :: ptr)) mod BUF_SIZE = unat (0 :: ptr)
   \<and> (\<exists>r'. ring_buffer_write \<lparr>data = replicate 8192 0x41, head = 8191, tail = 0, magic = BUF_MAGIC\<rparr>
             [0x42] = Some (Inr r')
          \<and> tail r' = 0 \<and> head r' = 0 \<and> window r' = [])"
  using newline_free_eviction
      [of "\<lparr>data = replicate 8192 0x41, head = 0, tail = 0, magic = BUF_MAGIC\<rparr>" "[0x42]"]
    newline_free_eviction
      [of "\<lparr>data = replicate 8192 0x41, head = 0, tail = 0, magic = BUF_MAGIC\<rparr>"
        "replicate 8192 0x42"]
    newline_free_eviction
      [of "\<lparr>data = replicate 8192 0x41, head = 8191, tail = 0, magic = BUF_MAGIC\<rparr>" "[0x42]"]
  by (simp add: rbuf_wf_def BUF_SIZE_def)

text \<open>
  C2 as stated fails: after a single newline-free line of exactly \<open>BUF_SIZE\<close> bytes the
  cursors are equal, and the next byte moves the head only. The tail does not follow it.
\<close>

theorem newline_free_eviction_counterexample:
  "ring_buffer_write (ring_buffer_init \<lparr>data = replicate 8192 0, head = 0, tail = 0, magic = 0\<rparr>)
       (replicate 8192 0x41)
     = Some (Inr \<lparr>data = replicate 8192 0x41, head = 0, tail = 0, magic = BUF_MAGIC\<rparr>)
   \<and> 0x0A \<notin> set (replicate 8192 (0x41 :: byte))
   \<and> ring_buffer_write \<lparr>data = replicate 8192 0x41, head = 0, tail = 0, magic = BUF_MAGIC\<rparr> [0x42]
     = Some (Inr \<lparr>data = (replicate 8192 0x41)[0 := 0x42], head = 1, tail = 0, magic = BUF_MAGIC\<rparr>)
   \<and> tail \<lparr>data = (replicate 8192 0x41)[0 := 0x42], head = 1, tail = 0, magic = BUF_MAGIC\<rparr>
     \<noteq> tail \<lparr>data = replicate 8192 0x41, head = 0, tail = 0, magic = BUF_MAGIC\<rparr> + 1"
proof -
  have "write_loop (replicate BUF_SIZE 0) 0 0 (replicate BUF_SIZE 0x41)
      = Some (Inr (replicate BUF_SIZE 0x41, 0, 0))"
    by (rule write_loop_fill) (simp_all add: BUF_SIZE_pos)
  then show ?thesis
    by (simp add: ring_buffer_write_def ring_buffer_init_def BUF_SIZE_def Let_def)
qed

section \<open>Copying the window\<close>

lemma window_span: "window r = span (data r) (head r) (tail r)"
  by (simp add: window_def span_def)

lemma length_span:
  "length d = BUF_SIZE \<Longrightarrow> unat h < BUF_SIZE \<Longrightarrow> unat t < BUF_SIZE \<Longrightarrow>
   length (span d h t) =
     (if unat t \<le> unat h then unat h - unat t else BUF_SIZE - unat t + unat h)"
  by (simp add: span_def)

lemma span_step:
  assumes "length d = BUF_SIZE" "unat h < BUF_SIZE" "unat t < BUF_SIZE" "h \<noteq> t"
  shows "span d h t = d ! unat t # span d h (if t + 1 = of_nat BUF_SIZE then 0 else t + 1)"
proof -
  let ?t1 = "if t + 1 = of_nat BUF_SIZE then 0 else t + 1"
  have u: "unat ?t1 = (if Suc (unat t) = BUF_SIZE then 0 else Suc (unat t))"
    using assms(3) by (rule unat_wrap)
  have ne: "unat h \<noteq> unat t"
    using assms(4) word_unat_eq_iff by blast
  have dr: "drop (unat t) d = d ! unat t # drop (Suc (unat t)) d"
    using assms(1,3) by (simp add: Cons_nth_drop_Suc)
  show ?thesis
  proof (cases "unat t < unat h")
    case True
    then have "unat h - unat t = Suc (unat h - Suc (unat t))"
      by simp
    then show ?thesis
      using True assms(2) dr u by (simp add: span_def)
  next
    case False
    then have "unat h < unat t"
      using ne by simp
    then show ?thesis
      using assms(1) dr u by (simp add: span_def)
  qed
qed

lemma copy_loop_span:
  "length d = BUF_SIZE \<Longrightarrow> unat h < BUF_SIZE \<Longrightarrow>
   unat t < BUF_SIZE \<Longrightarrow> length ld = BUF_SIZE \<Longrightarrow>
   dst + length (span d h t) \<le> BUF_SIZE \<Longrightarrow>
   copy_loop d h t ld dst =
     Inr (take dst ld @ map sanitize (span d h t) @ drop (dst + length (span d h t)) ld)"
proof (induction d h t ld dst rule: copy_loop.induct)
  case (1 d h t ld dst)
  show ?case
  proof (cases "h = t")
    case True
    then show ?thesis
      by (subst copy_loop.simps) (simp add: span_def)
  next
    case False
    let ?t1 = "if t + 1 = of_nat BUF_SIZE then 0 else t + 1"
    let ?c = "sanitize (d ! unat t)"
    have st: "span d h t = d ! unat t # span d h ?t1"
      using "1.prems"(1,2,3) False by (rule span_step)
    have dst: "dst < BUF_SIZE"
      using "1.prems"(5) st by simp
    have t1: "unat ?t1 < BUF_SIZE"
      using "1.prems"(3) by (rule wrap_in_range)
    have "copy_loop d h ?t1 (ld[dst := ?c]) (dst + 1) =
      Inr (take (dst + 1) (ld[dst := ?c]) @ map sanitize (span d h ?t1)
           @ drop (dst + 1 + length (span d h ?t1)) (ld[dst := ?c]))"
      using False "1.prems" dst t1 st by (intro "1.IH") simp_all
    moreover have "take (dst + 1) (ld[dst := ?c]) = take dst ld @ [?c]"
      using dst "1.prems"(4) by (simp add: take_Suc_conv_app_nth)
    moreover have "drop (dst + 1 + length (span d h ?t1)) (ld[dst := ?c])
        = drop (dst + length (span d h t)) ld"
      using st by simp
    ultimately have "copy_loop d h ?t1 (ld[dst := ?c]) (dst + 1) =
      Inr (take dst ld @ map sanitize (span d h t) @ drop (dst + length (span d h t)) ld)"
      using st by simp
    then show ?thesis
      using False "1.prems"(3) dst by (subst copy_loop.simps) (simp add: Let_def)
  qed
qed

lemma count_word:
  assumes "unat h < BUF_SIZE" "unat t < BUF_SIZE"
  shows "(if h < t then of_nat BUF_SIZE else 0) + h - t =
    (of_nat (if unat t \<le> unat h then unat h - unat t else BUF_SIZE - unat t + unat h) :: ptr)"
proof (cases "unat t \<le> unat h")
  case True
  then have "(of_nat (unat h - unat t) :: ptr) = of_nat (unat h) - of_nat (unat t)"
    by (rule of_nat_diff)
  then show ?thesis
    using True by (simp add: word_less_nat_alt)
next
  case False
  have "unat t \<le> BUF_SIZE + unat h"
    using assms(2) by simp
  then have "(of_nat (BUF_SIZE + unat h - unat t) :: ptr)
      = of_nat (BUF_SIZE + unat h) - of_nat (unat t)"
    by (rule of_nat_diff)
  moreover have "BUF_SIZE - unat t + unat h = BUF_SIZE + unat h - unat t"
    using assms(2) by simp
  ultimately show ?thesis
    using False by (simp add: word_less_nat_alt)
qed

lemma sint_of_nat_cint: "n < 2 ^ 31 \<Longrightarrow> sint (of_nat n :: cint) = int n"
  by (simp only: signed_of_nat) (simp add: signed_take_bit_int_eq_self)

lemma sint_count:
  assumes "n \<le> BUF_SIZE"
  shows "sint (ucast (of_nat n :: ptr) :: cint) = int n"
proof -
  have "sint (ucast (of_nat n :: ptr) :: cint) = sint (of_nat n :: cint)"
    using assms
    by (simp add: signed_ucast_eq unsigned_of_nat take_bit_nat_eq_self
        signed_take_bit_int_eq_self BUF_SIZE_def)
  also have "\<dots> = int n"
    using assms by (intro sint_of_nat_cint) (simp add: BUF_SIZE_def)
  finally show ?thesis .
qed

lemma uint_sint_nonneg:
  fixes w :: "'a::len word"
  assumes "0 \<le> sint w"
  shows "uint w = sint w"
proof -
  have "sint w < 2 ^ (LENGTH('a) - 1)"
    by (rule sint_lt)
  also have "\<dots> \<le> (2 :: int) ^ LENGTH('a)"
    by (rule power_increasing) simp_all
  finally have "take_bit LENGTH('a) (sint w) = sint w"
    using assms by (simp add: take_bit_int_eq_self)
  then show ?thesis
    by (simp add: uint_sint)
qed

lemma negative_out_of_range:
  fixes p :: ptr
  assumes "sint p < 0"
  shows "BUF_SIZE \<le> unat p"
proof (rule ccontr)
  assume "\<not> BUF_SIZE \<le> unat p"
  then have "unat p < 8192"
    by (simp add: BUF_SIZE_def)
  then have "uint p < 8192"
    by (metis uint_nat of_nat_less_iff of_nat_numeral)
  moreover have "- (2 ^ 63) \<le> uint p"
  proof -
    have "- (2 ^ 63) \<le> (0 :: int)"
      by simp
    also have "0 \<le> uint p"
      by simp
    finally show ?thesis .
  qed
  ultimately have "signed_take_bit 63 (uint p) = uint p"
    by (intro signed_take_bit_int_eq_self) simp_all
  then have "sint p = uint p"
    by (simp add: sint_uint)
  then show False
    using assms by simp
qed

lemma sanitize_printable: "sanitize b = 0x0A \<or> (0x20 \<le> sanitize b \<and> sanitize b \<le> 0x7F)"
  by (rule byte_exhaust [of "\<lambda>b. sanitize b = 0x0A \<or> (0x20 \<le> sanitize b \<and> sanitize b \<le> 0x7F)"])
    code_simp

lemma ring_buffer_copy_valid:
  assumes "rbuf_wf r" "lbuf_wf l" "magic r = BUF_MAGIC"
    and "unat (head r) < BUF_SIZE" "unat (tail r) < BUF_SIZE"
  shows "ring_buffer_copy r l =
    Inr \<lparr>ldata = map sanitize (window r) @ drop (length (window r)) (ldata l),
         count = ucast (of_nat (length (window r)) :: ptr)\<rparr>"
proof -
  let ?w = "span (data r) (head r) (tail r)"
  have len: "length (data r) = BUF_SIZE" "length (ldata l) = BUF_SIZE"
    using assms(1,2) by (simp_all add: rbuf_wf_def lbuf_wf_def)
  have lw: "length ?w =
      (if unat (tail r) \<le> unat (head r) then unat (head r) - unat (tail r)
       else BUF_SIZE - unat (tail r) + unat (head r))"
    using len(1) assms(4,5) by (rule length_span)
  then have "0 + length ?w \<le> BUF_SIZE"
    using assms(4,5) by auto
  from copy_loop_span [OF len(1) assms(4,5) len(2) this]
  have c: "copy_loop (data r) (head r) (tail r) (ldata l) 0 =
      Inr (map sanitize ?w @ drop (length ?w) (ldata l))"
    by simp
  have "(if head r < tail r then of_nat BUF_SIZE else 0) + head r - tail r
      = (of_nat (length ?w) :: ptr)"
    using count_word [OF assms(4,5)] lw by simp
  then show ?thesis
    using assms(3,4,5) c by (cases l) (simp add: ring_buffer_copy_def window_span)
qed

lemma length_window:
  assumes "rbuf_wf r" "unat (head r) < BUF_SIZE" "unat (tail r) < BUF_SIZE"
  shows "length (window r) =
      (if unat (tail r) \<le> unat (head r) then unat (head r) - unat (tail r)
       else BUF_SIZE - unat (tail r) + unat (head r))"
  using assms length_span [of "data r" "head r" "tail r"] by (simp add: window_span rbuf_wf_def)

text \<open>
  C3. When the marker is the sentinel and both cursors are below \<open>BUF_SIZE\<close>,
  \<^verbatim>\<open>ring_buffer_copy\<close> returns with \<^verbatim>\<open>lbuf->count\<close> set to \<open>BUF_SIZE - (tail - head)\<close> when the
  tail offset is above the head offset and to \<open>head - tail\<close> otherwise; that is the number of
  bytes from tail to head, read circularly; the first \<^verbatim>\<open>count\<close> bytes of \<^verbatim>\<open>lbuf->data\<close> are
  those bytes, each passed through the sanitizer, and the rest of \<^verbatim>\<open>lbuf->data\<close> is as before.
\<close>

theorem copy_length_and_bytes:
  assumes "rbuf_wf r" "lbuf_wf l" "magic r = BUF_MAGIC"
    and "unat (head r) < BUF_SIZE" "unat (tail r) < BUF_SIZE"
  shows "\<exists>l'. ring_buffer_copy r l = Inr l'
    \<and> sint (count l') =
        (if unat (head r) < unat (tail r)
         then int BUF_SIZE - (int (unat (tail r)) - int (unat (head r)))
         else int (unat (head r)) - int (unat (tail r)))
    \<and> length (window r) = nat (sint (count l'))
    \<and> take (nat (sint (count l'))) (ldata l') = map sanitize (window r)
    \<and> drop (nat (sint (count l'))) (ldata l') = drop (nat (sint (count l'))) (ldata l)"
proof -
  let ?n = "length (window r)"
  let ?l' = "\<lparr>ldata = map sanitize (window r) @ drop ?n (ldata l),
         count = ucast (of_nat ?n :: ptr)\<rparr>"
  have n: "?n = (if unat (tail r) \<le> unat (head r) then unat (head r) - unat (tail r)
       else BUF_SIZE - unat (tail r) + unat (head r))"
    using assms(1,4,5) by (rule length_window)
  then have "?n \<le> BUF_SIZE"
    using assms(4,5) by auto
  then have s: "sint (count ?l') = int ?n"
    by (simp add: sint_count)
  have "int ?n = (if unat (head r) < unat (tail r)
         then int BUF_SIZE - (int (unat (tail r)) - int (unat (head r)))
         else int (unat (head r)) - int (unat (tail r)))"
    using n assms(5) by (auto simp del: of_nat_unat)
  with s have c1: "sint (count ?l') = (if unat (head r) < unat (tail r)
         then int BUF_SIZE - (int (unat (tail r)) - int (unat (head r)))
         else int (unat (head r)) - int (unat (tail r)))"
    by (simp only:)
  have k: "nat (sint (count ?l')) = ?n"
    by (simp only: s nat_int)
  have c2: "take (nat (sint (count ?l'))) (ldata ?l') = map sanitize (window r)"
    unfolding k by simp
  have c3: "drop (nat (sint (count ?l'))) (ldata ?l') = drop (nat (sint (count ?l'))) (ldata l)"
    unfolding k by simp
  have "ring_buffer_copy r l = Inr ?l'"
    using assms by (rule ring_buffer_copy_valid)
  then show ?thesis
    using c1 k [symmetric] c2 c3 by blast
qed

theorem copy_length_and_bytes_witness:
  "rbuf_wf \<lparr>data = replicate 8192 0x81, head = 3, tail = 8190, magic = BUF_MAGIC\<rparr>
   \<and> lbuf_wf \<lparr>ldata = replicate 8192 0, count = 77\<rparr>
   \<and> magic \<lparr>data = replicate 8192 0x81, head = 3, tail = 8190, magic = BUF_MAGIC\<rparr> = BUF_MAGIC
   \<and> unat (3 :: ptr) < BUF_SIZE \<and> unat (8190 :: ptr) < BUF_SIZE
   \<and> (\<exists>l'. ring_buffer_copy
             \<lparr>data = replicate 8192 0x81, head = 3, tail = 8190, magic = BUF_MAGIC\<rparr>
             \<lparr>ldata = replicate 8192 0, count = 77\<rparr> = Inr l'
          \<and> sint (count l') = 5)"
proof -
  let ?r = "\<lparr>data = replicate 8192 0x81, head = 3, tail = 8190, magic = BUF_MAGIC\<rparr>"
  let ?l = "\<lparr>ldata = replicate 8192 0, count = 77\<rparr>"
  have h: "rbuf_wf ?r" "lbuf_wf ?l" "magic ?r = BUF_MAGIC"
    "unat (head ?r) < BUF_SIZE" "unat (tail ?r) < BUF_SIZE"
    by (simp_all add: rbuf_wf_def lbuf_wf_def BUF_SIZE_def)
  from copy_length_and_bytes [OF h] obtain l' where "ring_buffer_copy ?r ?l = Inr l'"
    "sint (count l') = 5"
    by (auto simp: BUF_SIZE_def)
  then show ?thesis
    using h by auto
qed

section \<open>The validity check\<close>

text \<open>
  C4. \<^verbatim>\<open>ring_buffer_copy\<close> copies exactly when the marker is the sentinel and both cursor
  offsets, read as unsigned values, are below \<open>BUF_SIZE\<close>. When one of the three checks
  fails it returns the linear buffer with \<^verbatim>\<open>count\<close> set to 0 and the data untouched; so it
  does for a wrong marker, a head offset of \<open>BUF_SIZE\<close>, a tail offset of \<open>BUF_SIZE + 5\<close> and
  an offset that is negative as a signed value. When all three hold it copies the sanitized
  window.
\<close>

theorem validity_check:
  "(magic r \<noteq> BUF_MAGIC \<or> BUF_SIZE \<le> unat (head r) \<or> BUF_SIZE \<le> unat (tail r) \<longrightarrow>
      ring_buffer_copy r l = Inr (l\<lparr>count := 0\<rparr>))
   \<and> (magic r \<noteq> BUF_MAGIC \<or> head r = of_nat BUF_SIZE \<or> tail r = of_nat (BUF_SIZE + 5)
        \<or> sint (head r) < 0 \<or> sint (tail r) < 0 \<longrightarrow>
      ring_buffer_copy r l = Inr (l\<lparr>count := 0\<rparr>))
   \<and> (rbuf_wf r \<and> lbuf_wf l \<and> magic r = BUF_MAGIC
        \<and> unat (head r) < BUF_SIZE \<and> unat (tail r) < BUF_SIZE \<longrightarrow>
      ring_buffer_copy r l =
        Inr \<lparr>ldata = map sanitize (window r) @ drop (length (window r)) (ldata l),
             count = ucast (of_nat (length (window r)) :: ptr)\<rparr>)"
proof (intro conjI impI)
  assume "magic r \<noteq> BUF_MAGIC \<or> BUF_SIZE \<le> unat (head r) \<or> BUF_SIZE \<le> unat (tail r)"
  then show "ring_buffer_copy r l = Inr (l\<lparr>count := 0\<rparr>)"
    by (simp add: ring_buffer_copy_def)
next
  assume a: "magic r \<noteq> BUF_MAGIC \<or> head r = of_nat BUF_SIZE \<or> tail r = of_nat (BUF_SIZE + 5)
        \<or> sint (head r) < 0 \<or> sint (tail r) < 0"
  have "unat (of_nat BUF_SIZE :: ptr) = BUF_SIZE" "unat (of_nat (BUF_SIZE + 5) :: ptr) = BUF_SIZE + 5"
    by (simp_all add: BUF_SIZE_def)
  then have "magic r \<noteq> BUF_MAGIC \<or> BUF_SIZE \<le> unat (head r) \<or> BUF_SIZE \<le> unat (tail r)"
    using a negative_out_of_range [of "head r"] negative_out_of_range [of "tail r"] by auto
  then show "ring_buffer_copy r l = Inr (l\<lparr>count := 0\<rparr>)"
    by (simp add: ring_buffer_copy_def)
next
  assume "rbuf_wf r \<and> lbuf_wf l \<and> magic r = BUF_MAGIC
        \<and> unat (head r) < BUF_SIZE \<and> unat (tail r) < BUF_SIZE"
  then show "ring_buffer_copy r l =
        Inr \<lparr>ldata = map sanitize (window r) @ drop (length (window r)) (ldata l),
             count = ucast (of_nat (length (window r)) :: ptr)\<rparr>"
    by (intro ring_buffer_copy_valid) simp_all
qed

theorem validity_check_witness:
  "BUF_SIZE \<le> unat (8192 :: ptr)
   \<and> ring_buffer_copy \<lparr>data = replicate 8192 0x41, head = 8192, tail = 0, magic = BUF_MAGIC\<rparr>
         \<lparr>ldata = replicate 8192 0, count = 77\<rparr>
       = Inr \<lparr>ldata = replicate 8192 0, count = 0\<rparr>
   \<and> (8197 :: ptr) = of_nat (BUF_SIZE + 5)
   \<and> ring_buffer_copy \<lparr>data = replicate 8192 0x41, head = 0, tail = 8197, magic = BUF_MAGIC\<rparr>
         \<lparr>ldata = replicate 8192 0, count = 77\<rparr>
       = Inr \<lparr>ldata = replicate 8192 0, count = 0\<rparr>
   \<and> sint (- 1 :: ptr) < 0
   \<and> ring_buffer_copy \<lparr>data = replicate 8192 0x41, head = - 1, tail = 0, magic = BUF_MAGIC\<rparr>
         \<lparr>ldata = replicate 8192 0, count = 77\<rparr>
       = Inr \<lparr>ldata = replicate 8192 0, count = 0\<rparr>
   \<and> (0x4B4D5346 :: cint) \<noteq> BUF_MAGIC
   \<and> ring_buffer_copy \<lparr>data = replicate 8192 0x41, head = 0, tail = 0, magic = 0x4B4D5346\<rparr>
         \<lparr>ldata = replicate 8192 0, count = 77\<rparr>
       = Inr \<lparr>ldata = replicate 8192 0, count = 0\<rparr>
   \<and> rbuf_wf \<lparr>data = replicate 8192 0x41, head = 2, tail = 0, magic = BUF_MAGIC\<rparr>
   \<and> lbuf_wf \<lparr>ldata = replicate 8192 0, count = 77\<rparr>
   \<and> unat (2 :: ptr) < BUF_SIZE \<and> unat (0 :: ptr) < BUF_SIZE
   \<and> ring_buffer_copy \<lparr>data = replicate 8192 0x41, head = 2, tail = 0, magic = BUF_MAGIC\<rparr>
         \<lparr>ldata = replicate 8192 0, count = 77\<rparr>
       = Inr \<lparr>ldata = map sanitize
                 (window \<lparr>data = replicate 8192 0x41, head = 2, tail = 0, magic = BUF_MAGIC\<rparr>)
               @ drop (length
                 (window \<lparr>data = replicate 8192 0x41, head = 2, tail = 0, magic = BUF_MAGIC\<rparr>))
                 (replicate 8192 0),
             count = ucast (of_nat (length
                 (window \<lparr>data = replicate 8192 0x41, head = 2, tail = 0, magic = BUF_MAGIC\<rparr>))
               :: ptr)\<rparr>"
  using validity_check [of "\<lparr>data = replicate 8192 0x41, head = 8192, tail = 0, magic = BUF_MAGIC\<rparr>"
      "\<lparr>ldata = replicate 8192 0, count = 77\<rparr>"]
    validity_check [of "\<lparr>data = replicate 8192 0x41, head = 0, tail = 8197, magic = BUF_MAGIC\<rparr>"
      "\<lparr>ldata = replicate 8192 0, count = 77\<rparr>"]
    validity_check [of "\<lparr>data = replicate 8192 0x41, head = - 1, tail = 0, magic = BUF_MAGIC\<rparr>"
      "\<lparr>ldata = replicate 8192 0, count = 77\<rparr>"]
    validity_check [of "\<lparr>data = replicate 8192 0x41, head = 0, tail = 0, magic = 0x4B4D5346\<rparr>"
      "\<lparr>ldata = replicate 8192 0, count = 77\<rparr>"]
    validity_check [of "\<lparr>data = replicate 8192 0x41, head = 2, tail = 0, magic = BUF_MAGIC\<rparr>"
      "\<lparr>ldata = replicate 8192 0, count = 77\<rparr>"]
  by (simp add: rbuf_wf_def lbuf_wf_def BUF_SIZE_def BUF_MAGIC_def)

section \<open>The length of the snapshot\<close>

text \<open>
  C10. \<^verbatim>\<open>ring_buffer_copy\<close> returns, and the \<^verbatim>\<open>count\<close> it leaves is at least 0 and strictly
  below \<open>BUF_SIZE\<close>, whatever the ring buffer held; with equal cursors it is 0.
\<close>

theorem snapshot_length_bound:
  assumes "rbuf_wf r" "lbuf_wf l"
  shows "\<exists>l'. ring_buffer_copy r l = Inr l'
    \<and> 0 \<le> sint (count l') \<and> sint (count l') \<le> int BUF_SIZE - 1
    \<and> (head r = tail r \<longrightarrow> count l' = 0)"
proof (cases "magic r = BUF_MAGIC \<and> unat (head r) < BUF_SIZE \<and> unat (tail r) < BUF_SIZE")
  case True
  let ?n = "length (window r)"
  let ?l' = "\<lparr>ldata = map sanitize (window r) @ drop ?n (ldata l),
         count = ucast (of_nat ?n :: ptr)\<rparr>"
  have n: "?n = (if unat (tail r) \<le> unat (head r) then unat (head r) - unat (tail r)
       else BUF_SIZE - unat (tail r) + unat (head r))"
    using assms(1) True by (intro length_window) simp_all
  then have lt: "?n < BUF_SIZE"
    using True by auto
  then have s: "sint (count ?l') = int ?n"
    by (simp add: sint_count)
  have "0 \<le> int ?n" "int ?n \<le> int BUF_SIZE - 1"
    using lt by auto
  then have b: "0 \<le> sint (count ?l')" "sint (count ?l') \<le> int BUF_SIZE - 1"
    by (simp_all only: s)
  have z: "head r = tail r \<longrightarrow> count ?l' = 0"
    using n by simp
  have "ring_buffer_copy r l = Inr ?l'"
    using assms True by (intro ring_buffer_copy_valid) simp_all
  then show ?thesis
    using b z by blast
next
  case False
  then have "ring_buffer_copy r l = Inr (l\<lparr>count := 0\<rparr>)"
    by (auto simp: ring_buffer_copy_def)
  then show ?thesis
    by (simp add: BUF_SIZE_def)
qed

theorem snapshot_length_bound_witness:
  "rbuf_wf \<lparr>data = replicate 8192 0x41, head = 0, tail = 1, magic = BUF_MAGIC\<rparr>
   \<and> lbuf_wf \<lparr>ldata = replicate 8192 0, count = 77\<rparr>
   \<and> (\<exists>l'. ring_buffer_copy \<lparr>data = replicate 8192 0x41, head = 0, tail = 1, magic = BUF_MAGIC\<rparr>
            \<lparr>ldata = replicate 8192 0, count = 77\<rparr> = Inr l'
          \<and> 0 \<le> sint (count l') \<and> sint (count l') \<le> int BUF_SIZE - 1)
   \<and> rbuf_wf \<lparr>data = replicate 8192 0x41, head = 5, tail = 5, magic = BUF_MAGIC\<rparr>
   \<and> (\<exists>l'. ring_buffer_copy \<lparr>data = replicate 8192 0x41, head = 5, tail = 5, magic = BUF_MAGIC\<rparr>
            \<lparr>ldata = replicate 8192 0, count = 77\<rparr> = Inr l'
          \<and> count l' = 0)"
proof -
  let ?r1 = "\<lparr>data = replicate 8192 0x41, head = 0, tail = 1, magic = BUF_MAGIC\<rparr>"
  let ?r2 = "\<lparr>data = replicate 8192 0x41, head = 5, tail = 5, magic = BUF_MAGIC\<rparr>"
  let ?l = "\<lparr>ldata = replicate 8192 0, count = 77\<rparr>"
  have h: "rbuf_wf ?r1" "rbuf_wf ?r2" "lbuf_wf ?l"
    by (simp_all add: rbuf_wf_def lbuf_wf_def BUF_SIZE_def)
  have "\<exists>l'. ring_buffer_copy ?r1 ?l = Inr l'
      \<and> 0 \<le> sint (count l') \<and> sint (count l') \<le> int BUF_SIZE - 1"
    using snapshot_length_bound [OF h(1,3)] by blast
  moreover have "\<exists>l'. ring_buffer_copy ?r2 ?l = Inr l' \<and> count l' = 0"
    using snapshot_length_bound [OF h(2,3)] by auto
  ultimately show ?thesis
    using h by blast
qed

section \<open>The snapshot holds printable bytes\<close>

lemma snapshot_clean_erased: "snapshot_clean (l\<lparr>count := 0\<rparr>)"
  by (simp add: snapshot_clean_def)

lemma linear_buffer_read_buf: "linear_buffer_read l ucap cnt ppos = Inr res \<Longrightarrow> buf res = l"
  by (auto simp: linear_buffer_read_def Let_def split: if_splits prod.splits)

text \<open>
  C9. \<^verbatim>\<open>ring_buffer_copy\<close> returns, and each of the first \<^verbatim>\<open>count\<close> bytes of the linear buffer
  it leaves is the newline \<open>0x0A\<close> or lies between \<open>0x20\<close> and \<open>0x7F\<close>. A linear buffer with that
  property keeps it through \<^verbatim>\<open>linear_buffer_write\<close> and through every call of
  \<^verbatim>\<open>linear_buffer_read\<close> that returns.
\<close>

theorem snapshot_printable:
  assumes "rbuf_wf r" "lbuf_wf l"
  shows "(\<exists>l'. ring_buffer_copy r l = Inr l' \<and> snapshot_clean l')
    \<and> (snapshot_clean s \<longrightarrow>
         snapshot_clean (fst (linear_buffer_write s ubuf wcnt wpos))
         \<and> (\<forall>res. linear_buffer_read s ucap cnt ppos = Inr res \<longrightarrow> snapshot_clean (buf res)))"
proof -
  have "\<exists>l'. ring_buffer_copy r l = Inr l' \<and> snapshot_clean l'"
  proof (cases "magic r = BUF_MAGIC \<and> unat (head r) < BUF_SIZE \<and> unat (tail r) < BUF_SIZE")
    case True
    let ?n = "length (window r)"
    let ?l' = "\<lparr>ldata = map sanitize (window r) @ drop ?n (ldata l),
           count = ucast (of_nat ?n :: ptr)\<rparr>"
    have "?n = (if unat (tail r) \<le> unat (head r) then unat (head r) - unat (tail r)
         else BUF_SIZE - unat (tail r) + unat (head r))"
      using assms(1) True by (intro length_window) simp_all
    then have "?n \<le> BUF_SIZE"
      using True by auto
    then have "sint (count ?l') = int ?n"
      by (simp add: sint_count)
    then have k: "nat (sint (count ?l')) = ?n"
      by (simp only: nat_int)
    have "list_all (\<lambda>b. b = 0x0A \<or> (0x20 \<le> b \<and> b \<le> 0x7F)) (map sanitize (window r))"
      using sanitize_printable by (simp add: list_all_iff)
    then have "snapshot_clean ?l'"
      unfolding snapshot_clean_def k by simp
    moreover have "ring_buffer_copy r l = Inr ?l'"
      using assms True by (intro ring_buffer_copy_valid) simp_all
    ultimately show ?thesis
      by blast
  next
    case False
    then have "ring_buffer_copy r l = Inr (l\<lparr>count := 0\<rparr>)"
      by (auto simp: ring_buffer_copy_def)
    then show ?thesis
      using snapshot_clean_erased by simp
  qed
  moreover have "snapshot_clean (fst (linear_buffer_write s ubuf wcnt wpos))"
    by (simp add: linear_buffer_write_def snapshot_clean_erased)
  moreover have "\<forall>res. linear_buffer_read s ucap cnt ppos = Inr res \<longrightarrow> snapshot_clean (buf res)"
    if "snapshot_clean s"
    using that linear_buffer_read_buf by blast
  ultimately show ?thesis
    by blast
qed

theorem snapshot_printable_witness:
  "rbuf_wf \<lparr>data = replicate 8192 0x81, head = 3, tail = 8190, magic = BUF_MAGIC\<rparr>
   \<and> lbuf_wf \<lparr>ldata = replicate 8192 0, count = 77\<rparr>
   \<and> (\<exists>l'. ring_buffer_copy \<lparr>data = replicate 8192 0x81, head = 3, tail = 8190, magic = BUF_MAGIC\<rparr>
            \<lparr>ldata = replicate 8192 0, count = 77\<rparr> = Inr l'
          \<and> snapshot_clean l')
   \<and> snapshot_clean \<lparr>ldata = replicate 8192 0x41, count = 3\<rparr>
   \<and> snapshot_clean (fst (linear_buffer_write \<lparr>ldata = replicate 8192 0x41, count = 3\<rparr> [] 4 0))
   \<and> linear_buffer_read \<lparr>ldata = replicate 8192 0x41, count = 3\<rparr> 10 2 0
       = Inr \<lparr>ret = 2, pos = 2, out = replicate 2 0x41,
              buf = \<lparr>ldata = replicate 8192 0x41, count = 3\<rparr>\<rparr>
   \<and> snapshot_clean (buf \<lparr>ret = 2, pos = 2, out = replicate 2 0x41,
              buf = \<lparr>ldata = replicate 8192 0x41, count = 3\<rparr>\<rparr>)"
proof -
  let ?r = "\<lparr>data = replicate 8192 0x81, head = 3, tail = 8190, magic = BUF_MAGIC\<rparr>"
  let ?l = "\<lparr>ldata = replicate 8192 0, count = 77\<rparr>"
  let ?s = "\<lparr>ldata = replicate 8192 0x41, count = 3\<rparr>"
  let ?res = "\<lparr>ret = 2, pos = 2, out = replicate 2 0x41, buf = ?s\<rparr>"
  have h: "rbuf_wf ?r" "lbuf_wf ?l"
    by (simp_all add: rbuf_wf_def lbuf_wf_def BUF_SIZE_def)
  have c: "snapshot_clean ?s"
    by (simp add: snapshot_clean_def list_all_iff)
  have rd: "linear_buffer_read ?s 10 2 0 = Inr ?res"
    by (simp add: linear_buffer_read_def copy_to_user_def BUF_SIZE_def)
  note t = snapshot_printable [OF h, of ?s "[]" 4 0 10 2 0]
  have "\<exists>l'. ring_buffer_copy ?r ?l = Inr l' \<and> snapshot_clean l'"
    using t by blast
  moreover have "snapshot_clean (fst (linear_buffer_write ?s [] 4 0))"
    using t c by blast
  moreover have "snapshot_clean (buf ?res)"
    using t c rd by blast
  ultimately show ?thesis
    using h c rd by blast
qed

section \<open>Reading and erasing the snapshot\<close>

lemma unat_sint_nonneg:
  fixes w :: "'a::len word"
  assumes "0 \<le> sint w"
  shows "unat w = nat (sint w)"
proof -
  have "unat w = nat (uint w)"
    by simp
  then show ?thesis
    by (simp only: uint_sint_nonneg [OF assms])
qed

lemma unat_scast_count:
  fixes c :: cint
  assumes "0 \<le> sint c"
  shows "unat (scast c :: 64 word) = nat (sint c)"
proof -
  have "sint (scast c :: 64 word) = sint c"
    by (rule sint_up_scast) (simp add: is_up)
  then show ?thesis
    using assms unat_sint_nonneg [of "scast c :: 64 word"] by simp
qed

lemma unat_less_2p63:
  fixes w :: "64 word"
  assumes "0 \<le> sint w"
  shows "unat w < 2 ^ 63"
proof -
  have "sint w < 2 ^ 63"
    using sint_lt [of w] by simp
  then have "nat (sint w) < nat (2 ^ 63)"
    using assms by (simp only: nat_less_eq_zless)
  then show ?thesis
    by (simp only: unat_sint_nonneg [OF assms]) simp
qed

lemma linear_buffer_read_clamped:
  assumes "lbuf_wf l" "0 \<le> sint (count l)" "sint (count l) \<le> int BUF_SIZE"
    and "0 \<le> sint ppos" "0 \<le> sint cnt"
  defines "len \<equiv> nat (sint (count l))"
  defines "p \<equiv> min (nat (sint ppos)) len"
  defines "n \<equiv> min (unat cnt) (len - p)"
  shows "\<exists>ppos' cnt'. unat ppos' = p \<and> unat cnt' = n \<and> unat (ppos' + cnt') = p + n
    \<and> linear_buffer_read l ucap cnt ppos =
      Inr (if n \<le> ucap
           then \<lparr>ret = cnt', pos = ppos' + cnt', out = take n (drop p (ldata l)), buf = l\<rparr>
           else \<lparr>ret = - EFAULT, pos = ppos', out = take ucap (drop p (ldata l)), buf = l\<rparr>)"
proof -
  let ?c = "scast (count l) :: 64 word"
  let ?ppos' = "if sint (count l) \<le> sint ppos then ?c else ppos"
  let ?cnt' = "if ?c \<le> ?ppos' + cnt then ?c - ?ppos' else cnt"
  have uc: "unat ?c = len"
    using unat_scast_count [OF assms(2)] by (simp only: len_def)
  have up: "unat ppos = nat (sint ppos)"
    using assms(4) by (rule unat_sint_nonneg)
  have lenb: "len \<le> BUF_SIZE"
    using assms(3) by (simp add: len_def)
  have p': "unat ?ppos' = p"
    using uc up assms(2) by (auto simp: p_def len_def min_def)
  have sp': "sint ?ppos' = int p"
  proof -
    have "sint ?c = sint (count l)"
      by (rule sint_up_scast) (simp add: is_up)
    then have "0 \<le> sint ?ppos'"
      using assms(2,4) by simp
    then have "unat ?ppos' = nat (sint ?ppos')" and "int (nat (sint ?ppos')) = sint ?ppos'"
      by (simp_all only: unat_sint_nonneg int_nat_eq if_True)
    then show ?thesis
      by (simp only: p' [symmetric])
  qed
  have pb: "p \<le> len"
    by (simp add: p_def)
  have "unat cnt < 2 ^ 63"
    using assms(5) by (rule unat_less_2p63)
  then have "unat ?ppos' + unat cnt < 2 ^ LENGTH(64)"
    using p' pb lenb by (simp add: BUF_SIZE_def)
  then have us: "unat (?ppos' + cnt) = p + unat cnt"
    using p' by (simp only: unat_add_lem [THEN iffD1])
  have le: "(?c \<le> ?ppos' + cnt) = (len \<le> p + unat cnt)"
    by (simp only: word_le_nat_alt uc us)
  have "?ppos' \<le> ?c"
    using pb by (simp only: word_le_nat_alt uc p')
  then have "unat (?c - ?ppos') = len - p"
    by (simp only: unat_sub uc p')
  then have n': "unat ?cnt' = n"
    unfolding le by (auto simp: n_def min_def)
  have pn: "p + n \<le> len"
    using pb by (simp add: n_def)
  then have "unat ?ppos' + unat ?cnt' < 2 ^ LENGTH(64)"
    using lenb by (simp only: p' n') (simp add: BUF_SIZE_def)
  then have us': "unat (?ppos' + ?cnt') = p + n"
    by (simp only: unat_add_lem [THEN iffD1] p' n')
  have inb: "0 \<le> sint ?ppos' \<and> sint ?ppos' + uint ?cnt' \<le> int BUF_SIZE"
  proof -
    have "uint ?cnt' = int n"
      using n' by (simp only: uint_nat)
    then show ?thesis
      using pn lenb by (simp only: sp') simp
  qed
  have "linear_buffer_read l ucap cnt ppos =
      Inr (if n \<le> ucap
           then \<lparr>ret = ?cnt', pos = ?ppos' + ?cnt', out = take n (drop p (ldata l)), buf = l\<rparr>
           else \<lparr>ret = - EFAULT, pos = ?ppos', out = take ucap (drop p (ldata l)), buf = l\<rparr>)"
    using inb
    by (simp only: linear_buffer_read_def Let_def copy_to_user_def sp' n' nat_int split: prod.splits)
      (auto simp: min_def)
  then show ?thesis
    using p' n' us' by blast
qed

text \<open>
  C6, as amended. Let the snapshot length \<^verbatim>\<open>count\<close> lie between 0 and \<open>BUF_SIZE\<close>. For every
  position that is not negative and every requested count that is not negative as an
  \<^verbatim>\<open>ssize_t\<close>, the two values the virtual file system lets through, \<^verbatim>\<open>linear_buffer_read\<close>
  clamps the position to \<open>p\<close>, at most the length, and the count to \<open>n\<close> with \<open>p + n\<close> at most
  the length. It never leaves the array. When the caller's buffer takes \<open>n\<close> bytes it returns
  \<open>n\<close>, hands out exactly the \<open>n\<close> bytes of the snapshot from \<open>p\<close> on and advances the position
  to \<open>p + n\<close>; otherwise it returns \<open>-EFAULT\<close>. A position at or beyond the length gives 0
  bytes and no fault.
\<close>

theorem read_clamps:
  assumes "lbuf_wf l" "0 \<le> sint (count l)" "sint (count l) \<le> int BUF_SIZE"
    and "0 \<le> sint ppos" "0 \<le> sint cnt"
  shows "let len = nat (sint (count l));
             p = min (nat (sint ppos)) len;
             n = min (unat cnt) (len - p)
         in p + n \<le> len \<and> len \<le> length (ldata l)
            \<and> (\<exists>res. linear_buffer_read l ucap cnt ppos = Inr res \<and> buf res = l
                 \<and> (n \<le> ucap \<longrightarrow> unat (ret res) = n \<and> unat (pos res) = p + n
                        \<and> out res = take n (drop p (ldata l)) \<and> length (out res) = n)
                 \<and> (ucap < n \<longrightarrow> ret res = - EFAULT \<and> unat (pos res) = p)
                 \<and> (len \<le> nat (sint ppos) \<longrightarrow>
                        unat (ret res) = 0 \<and> out res = [] \<and> unat (pos res) = len))"
proof -
  define len where "len = nat (sint (count l))"
  define p where "p = min (nat (sint ppos)) len"
  define n where "n = min (unat cnt) (len - p)"
  have pn: "p + n \<le> len"
    by (simp add: p_def n_def)
  have ll: "len \<le> length (ldata l)"
    using assms(1,3) by (simp add: len_def lbuf_wf_def)
  obtain ppos' cnt' where c: "unat ppos' = p" "unat cnt' = n" "unat (ppos' + cnt') = p + n"
    and r: "linear_buffer_read l ucap cnt ppos =
      Inr (if n \<le> ucap
           then \<lparr>ret = cnt', pos = ppos' + cnt', out = take n (drop p (ldata l)), buf = l\<rparr>
           else \<lparr>ret = - EFAULT, pos = ppos', out = take ucap (drop p (ldata l)), buf = l\<rparr>)"
    using linear_buffer_read_clamped [OF assms, of ucap] unfolding len_def p_def n_def by blast
  let ?res = "if n \<le> ucap
           then \<lparr>ret = cnt', pos = ppos' + cnt', out = take n (drop p (ldata l)), buf = l\<rparr>
           else \<lparr>ret = - EFAULT, pos = ppos', out = take ucap (drop p (ldata l)), buf = l\<rparr>"
  have b: "buf ?res = l"
    by simp
  have ok: "n \<le> ucap \<longrightarrow> unat (ret ?res) = n \<and> unat (pos ?res) = p + n
      \<and> out ?res = take n (drop p (ldata l)) \<and> length (out ?res) = n"
    using c pn ll by simp
  have ef: "ucap < n \<longrightarrow> ret ?res = - EFAULT \<and> unat (pos ?res) = p"
    using c by simp
  have "n = 0" "p = len" if "len \<le> nat (sint ppos)"
    using that by (simp_all add: p_def n_def)
  then have be: "len \<le> nat (sint ppos) \<longrightarrow>
      unat (ret ?res) = 0 \<and> out ?res = [] \<and> unat (pos ?res) = len"
    using c by simp
  have "\<exists>res. linear_buffer_read l ucap cnt ppos = Inr res \<and> buf res = l
      \<and> (n \<le> ucap \<longrightarrow> unat (ret res) = n \<and> unat (pos res) = p + n
             \<and> out res = take n (drop p (ldata l)) \<and> length (out res) = n)
      \<and> (ucap < n \<longrightarrow> ret res = - EFAULT \<and> unat (pos res) = p)
      \<and> (len \<le> nat (sint ppos) \<longrightarrow>
             unat (ret res) = 0 \<and> out res = [] \<and> unat (pos res) = len)"
    using r b ok ef be by blast
  then show ?thesis
    using pn ll unfolding Let_def len_def [symmetric] p_def [symmetric] n_def [symmetric]
    by blast
qed

theorem read_clamps_witness:
  "lbuf_wf \<lparr>ldata = replicate 8192 0x41, count = 11\<rparr>
   \<and> 0 \<le> sint (11 :: cint) \<and> sint (11 :: cint) \<le> int BUF_SIZE
   \<and> 0 \<le> sint (5 :: loff_t) \<and> 0 \<le> sint (100 :: size_t)
   \<and> (\<exists>res. linear_buffer_read \<lparr>ldata = replicate 8192 0x41, count = 11\<rparr> 4096 100 5 = Inr res
          \<and> unat (ret res) = 6 \<and> unat (pos res) = 11
          \<and> out res = take 6 (drop 5 (replicate 8192 0x41)))
   \<and> 0 \<le> sint (20 :: loff_t)
   \<and> (\<exists>res. linear_buffer_read \<lparr>ldata = replicate 8192 0x41, count = 11\<rparr> 0 100 20 = Inr res
          \<and> unat (ret res) = 0 \<and> unat (pos res) = 11 \<and> out res = [])"
proof -
  let ?l = "\<lparr>ldata = replicate 8192 0x41, count = 11\<rparr>"
  have h: "lbuf_wf ?l" "0 \<le> sint (count ?l)" "sint (count ?l) \<le> int BUF_SIZE"
    by (simp_all add: lbuf_wf_def BUF_SIZE_def)
  have p: "0 \<le> sint (5 :: loff_t)" "0 \<le> sint (100 :: size_t)" "0 \<le> sint (20 :: loff_t)"
    by simp_all
  have "\<exists>res. linear_buffer_read ?l 4096 100 5 = Inr res
          \<and> unat (ret res) = 6 \<and> unat (pos res) = 11
          \<and> out res = take 6 (drop 5 (replicate 8192 0x41))"
    using read_clamps [OF h p(1,2), of 4096] by (auto simp: Let_def)
  moreover have "\<exists>res. linear_buffer_read ?l 0 100 20 = Inr res
          \<and> unat (ret res) = 0 \<and> unat (pos res) = 11 \<and> out res = []"
    using read_clamps [OF h p(3,2), of 0] by (auto simp: Let_def)
  ultimately show ?thesis
    using h p by simp
qed

text \<open>
  C6 as stated fails at a negative position: position \<open>-1\<close> is not clamped to 0, the count
  stays 1, and the byte handed to \<^verbatim>\<open>copy_to_user\<close> is the one before \<^verbatim>\<open>lbuf->data\<close>.
\<close>

theorem read_clamps_counterexample:
  "lbuf_wf \<lparr>ldata = replicate 8192 0x41, count = 10\<rparr>
   \<and> sint (- 1 :: loff_t) = - 1
   \<and> linear_buffer_read \<lparr>ldata = replicate 8192 0x41, count = 10\<rparr> 4096 1 (- 1)
       = Inl OutOfBounds"
  by (simp add: linear_buffer_read_def lbuf_wf_def BUF_SIZE_def Let_def)

text \<open>
  C7. The snapshot endpoint passes on requests whose size is not negative as an \<^verbatim>\<open>ssize_t\<close>
  and whose position is not negative. \<^verbatim>\<open>linear_buffer_write\<close> sets \<^verbatim>\<open>count\<close> to 0 and leaves
  the data, whatever content, size and position it is given, and it returns the size it was
  given: for a size of the endpoint the value returned, read as an \<^verbatim>\<open>ssize_t\<close>, is that size.
  Every later read of the endpoint, whatever count it asks for and whatever the caller's
  buffer takes, returns 0, hands out no byte and leaves the linear buffer as it is, so the
  same holds for the reads after it.
\<close>

theorem erase_on_write:
  "linear_buffer_write l ubuf cnt ppos = (l\<lparr>count := 0\<rparr>, cnt)
   \<and> (0 \<le> sint cnt \<longrightarrow> sint (snd (linear_buffer_write l ubuf cnt ppos)) = uint cnt)
   \<and> (0 \<le> sint rpos \<longrightarrow>
        linear_buffer_read (fst (linear_buffer_write l ubuf cnt ppos)) ucap rcnt rpos
          = Inr \<lparr>ret = 0, pos = 0, out = [], buf = l\<lparr>count := 0\<rparr>\<rparr>)"
proof (intro conjI impI)
  show "linear_buffer_write l ubuf cnt ppos = (l\<lparr>count := 0\<rparr>, cnt)"
    by (simp add: linear_buffer_write_def)
next
  assume "0 \<le> sint cnt"
  then have "uint cnt = sint cnt"
    by (rule uint_sint_nonneg)
  then show "sint (snd (linear_buffer_write l ubuf cnt ppos)) = uint cnt"
    by (simp add: linear_buffer_write_def)
next
  assume "0 \<le> sint rpos"
  then show "linear_buffer_read (fst (linear_buffer_write l ubuf cnt ppos)) ucap rcnt rpos
      = Inr \<lparr>ret = 0, pos = 0, out = [], buf = l\<lparr>count := 0\<rparr>\<rparr>"
    by (simp add: linear_buffer_write_def linear_buffer_read_def copy_to_user_def Let_def)
qed

theorem erase_on_write_witness:
  "linear_buffer_write \<lparr>ldata = replicate 8192 0x41, count = 11\<rparr> [0x61, 0x62, 0x63] 3 0
     = (\<lparr>ldata = replicate 8192 0x41, count = 0\<rparr>, 3)
   \<and> 0 \<le> sint (3 :: size_t)
   \<and> sint (snd (linear_buffer_write \<lparr>ldata = replicate 8192 0x41, count = 11\<rparr>
                  [0x61, 0x62, 0x63] 3 0)) = 3
   \<and> 0 \<le> sint (7 :: loff_t)
   \<and> linear_buffer_read
         (fst (linear_buffer_write \<lparr>ldata = replicate 8192 0x41, count = 11\<rparr> [0x61, 0x62, 0x63] 3 0))
         4096 100 7
       = Inr \<lparr>ret = 0, pos = 0, out = [], buf = \<lparr>ldata = replicate 8192 0x41, count = 0\<rparr>\<rparr>"
proof -
  let ?l = "\<lparr>ldata = replicate 8192 0x41, count = 11\<rparr>"
  note t = erase_on_write [of ?l "[0x61, 0x62, 0x63]" 3 0 7 4096 100]
  have p: "0 \<le> sint (3 :: size_t)" "0 \<le> sint (7 :: loff_t)"
    by simp_all
  have "linear_buffer_write ?l [0x61, 0x62, 0x63] 3 0 = (?l\<lparr>count := 0\<rparr>, 3)"
    using t by (rule conjunct1)
  moreover have "sint (snd (linear_buffer_write ?l [0x61, 0x62, 0x63] 3 0)) = uint (3 :: size_t)"
    using t p by blast
  moreover have "linear_buffer_read (fst (linear_buffer_write ?l [0x61, 0x62, 0x63] 3 0)) 4096 100 7
      = Inr \<lparr>ret = 0, pos = 0, out = [], buf = ?l\<lparr>count := 0\<rparr>\<rparr>"
    using t p by blast
  moreover have "?l\<lparr>count := 0\<rparr> = \<lparr>ldata = replicate 8192 0x41, count = 0\<rparr>"
    by simp
  moreover have "uint (3 :: size_t) = 3"
    by simp
  ultimately show ?thesis
    using p by (simp only:)
qed

end
